theory Spec2Isabelle
  imports Main
begin

section \<open>Text, clock and records\<close>

text \<open>
  The service of \<^verbatim>\<open>src/main.py\<close> receives a request body, pulls five named string fields
  out of it with two regular expressions per field, and keeps the last ten parsed records
  together with a running counter.

  A Python \<^verbatim>\<open>str\<close> is modelled as a \<^typ>\<open>string\<close> in which one \<^typ>\<open>char\<close> stands for one
  character of the \<^verbatim>\<open>str\<close> (so \<^const>\<open>length\<close> is Python's \<^verbatim>\<open>len\<close>); the characters covered
  are the code points below 256. A reading of the wall clock, a naive \<^verbatim>\<open>datetime\<close>, is
  represented by its ISO 8601 text, which determines it, so that \<^verbatim>\<open>.isoformat()\<close> returns
  the representation. The calls of \<^verbatim>\<open>datetime.now()\<close> made while one request is handled
  are modelled as one reading \<open>now\<close>, handed to the function.
\<close>

type_synonym datetime = string

definition isoformat :: "datetime \<Rightarrow> string" where
  "isoformat t = t"

definition dquote :: char where
  "dquote = CHR 0x22"

definition quoted :: "string \<Rightarrow> string" where
  "quoted s = dquote # s @ [dquote]"

text \<open>
  \<^verbatim>\<open>class TransactionData(BaseModel)\<close>: five \<^verbatim>\<open>Optional[str]\<close> fields and the time of
  construction. \<open>TransactionData_default\<close> is the record the class builds when no field is
  passed, that is, the declared \<^verbatim>\<open>Field(default=...)\<close> values.
\<close>

record TransactionData =
  authorizer_usrnbr :: "string option"
  creat_usrnbr :: "string option"
  creat_time :: "string option"
  data :: "string option"
  usrname :: "string option"
  received_at :: datetime

definition TransactionData_default :: "datetime \<Rightarrow> TransactionData" where
  "TransactionData_default now =
     \<lparr>authorizer_usrnbr = Some ''UNKNOWN'',
      creat_usrnbr = Some ''UNKNOWN'',
      creat_time = Some '''',
      data = Some '''',
      usrname = Some ''UNKNOWN'',
      received_at = now\<rparr>"

definition fully_populated :: "TransactionData \<Rightarrow> bool" where
  "fully_populated t =
     (authorizer_usrnbr t \<noteq> None \<and> creat_usrnbr t \<noteq> None \<and> creat_time t \<noteq> None
      \<and> data t \<noteq> None \<and> usrname t \<noteq> None)"

section \<open>The regular expressions\<close>

text \<open>
  The two patterns of \<^verbatim>\<open>_extract_string_value\<close> use literal characters, the classes
  \<^verbatim>\<open>\s\<close> and \<^verbatim>\<open>[^"]\<close>, the greedy repetitions \<^verbatim>\<open>*\<close> and \<^verbatim>\<open>+\<close> of a class, and one
  capturing group. A pattern is the list of its nodes. \<open>is_space\<close> is \<^verbatim>\<open>\s\<close> of a
  \<^verbatim>\<open>str\<close> pattern (Unicode white space) on the code points below 256.
\<close>

definition is_space :: "char \<Rightarrow> bool" where
  "is_space c = (of_char c \<in> set [9, 10, 11, 12, 13, 28, 29, 30, 31, 32, 133, 160 :: nat])"

datatype cls = Space | Not_in "char list"

fun in_cls :: "cls \<Rightarrow> char \<Rightarrow> bool" where
  "in_cls Space c = is_space c"
| "in_cls (Not_in cs) c = (c \<notin> set cs)"

datatype node = Lit char | Star cls | Plus cls | Group_open | Group_close

type_synonym regex = "node list"

text \<open>
  \<open>re_match p s g cap\<close> is the backtracking matcher of \<^verbatim>\<open>re\<close>, anchored at the head of
  \<open>s\<close>: a greedy repetition first takes one more character and, when the rest of the
  pattern then fails, gives the character back. \<open>g\<close> is the text that was ahead when the
  group opened and \<open>cap\<close> the text of the group once it has closed; a successful match
  returns \<^verbatim>\<open>match.group(1)\<close>. The recursion ends because every call shortens the text or
  the pattern.
\<close>

fun re_match :: "regex \<Rightarrow> string \<Rightarrow> string \<Rightarrow> string \<Rightarrow> string option" where
  "re_match [] s g cap = Some cap"
| "re_match (Lit c # ps) [] g cap = None"
| "re_match (Lit c # ps) (x # xs) g cap = (if x = c then re_match ps xs g cap else None)"
| "re_match (Star k # ps) [] g cap = re_match ps [] g cap"
| "re_match (Star k # ps) (x # xs) g cap =
     (if in_cls k x
      then (case re_match (Star k # ps) xs g cap of
              Some r \<Rightarrow> Some r
            | None \<Rightarrow> re_match ps (x # xs) g cap)
      else re_match ps (x # xs) g cap)"
| "re_match (Plus k # ps) [] g cap = None"
| "re_match (Plus k # ps) (x # xs) g cap =
     (if in_cls k x then re_match (Star k # ps) xs g cap else None)"
| "re_match (Group_open # ps) s g cap = re_match ps s s cap"
| "re_match (Group_close # ps) s g cap = re_match ps s g (take (length g - length s) g)"

text \<open>
  \<^verbatim>\<open>re.search\<close>: the start positions are tried from the left, the end of the text
  included, and the first position where the pattern matches decides.
\<close>

fun re_search :: "regex \<Rightarrow> string \<Rightarrow> string option" where
  "re_search p [] = re_match p [] [] []"
| "re_search p (x # xs) =
     (case re_match p (x # xs) [] [] of
        Some r \<Rightarrow> Some r
      | None \<Rightarrow> re_search p xs)"

text \<open>
  \<^verbatim>\<open>rf'"{field_name}"\s*:\s*{{\s*"string"\s*:\s*"([^"]+)"\s*}}'\<close> and
  \<^verbatim>\<open>rf'"{field_name}"\s*:\s*"([^"]+)"'\<close>. The field name is pasted into the pattern, so
  the patterns below are the ones Python compiles when the name has no character that is
  special in a regular expression (\<open>plain_name\<close>); the five names the parser asks for are
  letters and underscores.
\<close>

definition plain_name :: "string \<Rightarrow> bool" where
  "plain_name field_name =
     list_all (\<lambda>c. c \<notin> set (CHR 0x5C # ''.^$*+?{}[]|()'')) field_name"

definition pattern1 :: "string \<Rightarrow> regex" where
  "pattern1 field_name =
     map Lit (quoted field_name)
     @ [Star Space, Lit CHR '':'', Star Space, Lit CHR ''{'', Star Space]
     @ map Lit (quoted ''string'')
     @ [Star Space, Lit CHR '':'', Star Space,
        Lit dquote, Group_open, Plus (Not_in [dquote]), Group_close, Lit dquote,
        Star Space, Lit CHR ''}'']"

definition pattern2 :: "string \<Rightarrow> regex" where
  "pattern2 field_name =
     map Lit (quoted field_name)
     @ [Star Space, Lit CHR '':'', Star Space,
        Lit dquote, Group_open, Plus (Not_in [dquote]), Group_close, Lit dquote]"

section \<open>The parser\<close>

text \<open>
  \<^verbatim>\<open>AvroStringParser._extract_string_value\<close> (an Isabelle name cannot begin with an
  underscore): pattern 1, then pattern 2, then the sentinel.
\<close>

definition extract_string_value :: "string \<Rightarrow> string \<Rightarrow> string" where
  "extract_string_value avro_string field_name =
     (case re_search (pattern1 field_name) avro_string of
        Some v \<Rightarrow> v
      | None \<Rightarrow>
          (case re_search (pattern2 field_name) avro_string of
             Some v \<Rightarrow> v
           | None \<Rightarrow> ''UNKNOWN''))"

text \<open>
  \<^verbatim>\<open>AvroStringParser._create_fallback_transaction\<close>, its name without the leading
  underscore as well; \<^verbatim>\<open>raw_data[:200]\<close> is \<open>take 200\<close>.
\<close>

definition create_fallback_transaction ::
  "datetime \<Rightarrow> string \<Rightarrow> string \<Rightarrow> TransactionData" where
  "create_fallback_transaction now raw_data error_msg =
     \<lparr>authorizer_usrnbr = Some ''PARSE_ERROR'',
      creat_usrnbr = Some ''PARSE_ERROR'',
      creat_time = Some (isoformat now),
      data = Some (take 200 raw_data @ (if length raw_data > 200 then ''...'' else '''')),
      usrname = Some (''ERROR: '' @ take 50 error_msg),
      received_at = now\<rparr>"

text \<open>
  An exception is the value \<open>Exception msg\<close>, with \<open>str\<close> its message. The \<^verbatim>\<open>try\<close> block
  of \<^verbatim>\<open>parse_avro_string\<close> runs the five extractions in the source's order and builds
  the record; the first step that raises ends the block. \<open>parse_avro_string_with\<close> is the
  function over an arbitrary extraction step, which may raise, so that the \<^verbatim>\<open>except\<close>
  branch is part of the model; \<open>parse_avro_string\<close> is the source's function, whose
  extraction step is \<open>extract_string_value\<close>, which returns and does not raise. The
  record class accepts every \<^verbatim>\<open>str\<close> for its five fields, so building the record is the
  last step and cannot fail. The two logging calls have no effect on the result.
\<close>

datatype exn = Exception string

fun str :: "exn \<Rightarrow> string" where
  "str (Exception msg) = msg"

definition bind_exn :: "exn + 'a \<Rightarrow> ('a \<Rightarrow> exn + 'b) \<Rightarrow> exn + 'b" where
  "bind_exn m f = (case m of Inl e \<Rightarrow> Inl e | Inr x \<Rightarrow> f x)"

definition try_parse ::
  "(string \<Rightarrow> string \<Rightarrow> exn + string) \<Rightarrow> datetime \<Rightarrow> string \<Rightarrow> exn + TransactionData" where
  "try_parse step now raw_data =
     bind_exn (step raw_data ''authorizer_usrnbr'') (\<lambda>a.
     bind_exn (step raw_data ''creat_usrnbr'') (\<lambda>b.
     bind_exn (step raw_data ''creat_time'') (\<lambda>c.
     bind_exn (step raw_data ''data'') (\<lambda>d.
     bind_exn (step raw_data ''usrname'') (\<lambda>u.
     Inr \<lparr>authorizer_usrnbr = Some a,
          creat_usrnbr = Some b,
          creat_time = Some c,
          data = Some d,
          usrname = Some u,
          received_at = now\<rparr>)))))"

definition parse_avro_string_with ::
  "(string \<Rightarrow> string \<Rightarrow> exn + string) \<Rightarrow> datetime \<Rightarrow> string \<Rightarrow> TransactionData" where
  "parse_avro_string_with step now raw_data =
     (case try_parse step now raw_data of
        Inr transaction \<Rightarrow> transaction
      | Inl e \<Rightarrow> create_fallback_transaction now raw_data (str e))"

definition extract_step :: "string \<Rightarrow> string \<Rightarrow> exn + string" where
  "extract_step avro_string field_name = Inr (extract_string_value avro_string field_name)"

text \<open>
  An extraction step that raises at the field \<open>bad\<close> and works as the source's step at the
  others: it drives the \<^verbatim>\<open>except\<close> branch on concrete inputs.
\<close>

definition raising_step :: "string \<Rightarrow> string \<Rightarrow> string \<Rightarrow> exn + string" where
  "raising_step bad avro_string field_name =
     (if field_name = bad then Inl (Exception (''cannot read '' @ field_name))
      else extract_step avro_string field_name)"

definition parse_avro_string :: "datetime \<Rightarrow> string \<Rightarrow> TransactionData" where
  "parse_avro_string now raw_data = parse_avro_string_with extract_step now raw_data"

section \<open>The store and the endpoints\<close>

text \<open>
  The module's two globals are the fields of \<open>store\<close>; a handler takes the store and
  returns its reply with the store it leaves. No handler has a suspension point between
  its reads and writes of the globals, so one call is one step. A reply that is a Python
  dictionary is the list of its items.
\<close>

record store =
  transaction_counter :: int
  transaction_storage :: "TransactionData list"

definition initial_store :: store where
  "initial_store = \<lparr>transaction_counter = 0, transaction_storage = []\<rparr>"

datatype json = JNull | JStr string | JInt int

definition json_opt :: "string option \<Rightarrow> json" where
  "json_opt v = (case v of None \<Rightarrow> JNull | Some s \<Rightarrow> JStr s)"

datatype http_exception = HTTPException nat string

text \<open>
  Lines 116 to 121 of \<^verbatim>\<open>receive_transaction\<close>: append, count, keep the last ten
  (\<^verbatim>\<open>transaction_storage[-10:]\<close> under the guard \<^verbatim>\<open>len(transaction_storage) > 10\<close>).
\<close>

definition store_transaction :: "TransactionData \<Rightarrow> store \<Rightarrow> store" where
  "store_transaction transaction st =
     (let appended = transaction_storage st @ [transaction];
          counter = transaction_counter st + 1
      in \<lparr>transaction_counter = counter,
          transaction_storage =
            (if length appended > 10 then drop (length appended - 10) appended
             else appended)\<rparr>)"

text \<open>
  \<^verbatim>\<open>receive_transaction\<close>. The body arrives as the outcome of
  \<^verbatim>\<open>raw_body.decode('utf-8')\<close>: its text, or the exception of bytes that do not decode,
  which the handler turns into the 400 reply and which leaves the store as it was.
\<close>

definition receive_transaction ::
  "datetime \<Rightarrow> exn + string \<Rightarrow> store
     \<Rightarrow> (http_exception + (string \<times> json) list) \<times> store" where
  "receive_transaction now body st =
     (case body of
        Inl e \<Rightarrow> (Inl (HTTPException 400 (''Failed to process transaction: '' @ str e)), st)
      | Inr raw_data \<Rightarrow>
          (let transaction = parse_avro_string now raw_data;
               st' = store_transaction transaction st
           in (Inr [(''status'', JStr ''success''),
                    (''message'', JStr ''Transaction received successfully''),
                    (''count'', JInt (transaction_counter st')),
                    (''poc_id'', JInt (transaction_counter st')),
                    (''user'', json_opt (usrname transaction)),
                    (''received_at'', JStr (isoformat (received_at transaction)))],
               st')))"

text \<open>\<^verbatim>\<open>get_transactions\<close> and its \<^verbatim>\<open>TransactionResponse\<close>.\<close>

record TransactionResponse =
  total_count :: int
  last_10_transactions :: "TransactionData list"
  last_updated :: datetime
  poc_status :: string
  processing_mode :: string

definition get_transactions :: "datetime \<Rightarrow> store \<Rightarrow> TransactionResponse \<times> store" where
  "get_transactions now st =
     (let last_transactions = rev (transaction_storage st)
      in (\<lparr>total_count = transaction_counter st,
           last_10_transactions = last_transactions,
           last_updated = now,
           poc_status = ''active'',
           processing_mode = ''python_avro''\<rparr>,
          st))"

text \<open>\<^verbatim>\<open>reset_counters\<close>.\<close>

definition reset_counters ::
  "datetime \<Rightarrow> store \<Rightarrow> (string \<times> json) list \<times> store" where
  "reset_counters now st =
     ([(''status'', JStr ''success''),
       (''message'', JStr ''Counters reset successfully''),
       (''timestamp'', JStr (isoformat now))],
      \<lparr>transaction_counter = 0, transaction_storage = []\<rparr>)"

text \<open>
  A run of the service: the requests that touch the store, each with the clock reading of
  its handler, served one after the other from the store the process starts with.
\<close>

datatype request = Post_transaction "exn + string" | Get_transactions | Post_reset

fun handle :: "store \<Rightarrow> datetime \<times> request \<Rightarrow> store" where
  "handle st (now, Post_transaction body) = snd (receive_transaction now body st)"
| "handle st (now, Get_transactions) = snd (get_transactions now st)"
| "handle st (now, Post_reset) = snd (reset_counters now st)"

definition serve :: "(datetime \<times> request) list \<Rightarrow> store" where
  "serve requests = foldl handle initial_store requests"

section \<open>Field declarations in a raw text\<close>

text \<open>
  The five names the parser asks for (the spec calls them authorizing_user_id,
  creating_user_id, creation_time, payload and username). Then a field declaration in
  the wrapped form and in the bare form, with the white space that may stand around the
  colons and braces, and what it means that one begins at the head of a text with the
  value \<open>v\<close>: the value is not empty and has no double quote.
\<close>

definition field_names :: "string list" where
  "field_names = [''authorizer_usrnbr'', ''creat_usrnbr'', ''creat_time'', ''data'', ''usrname'']"

definition spaces :: "string \<Rightarrow> bool" where
  "spaces ws = list_all is_space ws"

definition wrapped_form ::
  "string \<Rightarrow> string \<Rightarrow> string \<Rightarrow> string \<Rightarrow> string \<Rightarrow> string \<Rightarrow> string \<Rightarrow> string \<Rightarrow> string" where
  "wrapped_form f a b c d e v g =
     quoted f @ a @ '':'' @ b @ ''{'' @ c @ quoted ''string'' @ d @ '':'' @ e @ quoted v
     @ g @ ''}''"

definition bare_form :: "string \<Rightarrow> string \<Rightarrow> string \<Rightarrow> string \<Rightarrow> string" where
  "bare_form f a b v = quoted f @ a @ '':'' @ b @ quoted v"

definition wrapped_at :: "string \<Rightarrow> string \<Rightarrow> string \<Rightarrow> bool" where
  "wrapped_at f s v =
     (\<exists>a b c d e g rest. spaces a \<and> spaces b \<and> spaces c \<and> spaces d \<and> spaces e \<and> spaces g
        \<and> v \<noteq> [] \<and> dquote \<notin> set v \<and> s = wrapped_form f a b c d e v g @ rest)"

definition bare_at :: "string \<Rightarrow> string \<Rightarrow> string \<Rightarrow> bool" where
  "bare_at f s v =
     (\<exists>a b rest. spaces a \<and> spaces b
        \<and> v \<noteq> [] \<and> dquote \<notin> set v \<and> s = bare_form f a b v @ rest)"

text \<open>
  \<open>rejects k ps\<close>: the rest \<open>ps\<close> of a pattern fails on every text that begins with a
  character of the class \<open>k\<close>. A repetition of \<open>k\<close> before such a rest has one way to
  match, so that giving characters back never finds a second one.
\<close>

definition rejects :: "cls \<Rightarrow> regex \<Rightarrow> bool" where
  "rejects k ps = (\<forall>x xs g cap. in_cls k x \<longrightarrow> re_match ps (x # xs) g cap = None)"

section \<open>The matcher on the two patterns\<close>

text \<open>
  What a successful match says about the text (the lemmas named \<open>inv\<close>), and what the
  matcher returns on a text of a known shape. White space is followed in both patterns
  by a character that is not white space, and the value by a double quote, so each
  repetition ends where its class ends.
\<close>

lemma lits_app: "re_match (map Lit w @ ps) (w @ s) g cap = re_match ps s g cap"
  by (induction w) simp_all

lemma lits_inv:
  "re_match (map Lit w @ ps) s g cap = Some v \<Longrightarrow> \<exists>t. s = w @ t \<and> re_match ps t g cap = Some v"
proof (induction w arbitrary: s)
  case Nil
  then show ?case by simp
next
  case (Cons c w)
  then show ?case by (cases s) (auto split: if_splits)
qed

lemma lit_inv:
  "re_match (Lit c # ps) s g cap = Some v \<Longrightarrow> \<exists>t. s = c # t \<and> re_match ps t g cap = Some v"
  by (cases s) (auto split: if_splits)

lemma star_inv:
  "re_match (Star k # ps) s g cap = Some v \<Longrightarrow>
     \<exists>ws t. s = ws @ t \<and> list_all (in_cls k) ws \<and> re_match ps t g cap = Some v"
proof (induction s)
  case Nil
  then show ?case by simp
next
  case (Cons x xs)
  show ?case
  proof (cases "in_cls k x \<and> re_match (Star k # ps) xs g cap \<noteq> None")
    case True
    with Cons.prems have "re_match (Star k # ps) xs g cap = Some v" by auto
    from Cons.IH [OF this] obtain ws t where
      "xs = ws @ t" "list_all (in_cls k) ws" "re_match ps t g cap = Some v" by blast
    with True have "x # xs = (x # ws) @ t \<and> list_all (in_cls k) (x # ws) \<and> re_match ps t g cap = Some v"
      by simp
    then show ?thesis by blast
  next
    case False
    with Cons.prems have "re_match ps (x # xs) g cap = Some v"
      by (auto split: if_splits option.splits)
    then have "x # xs = [] @ (x # xs) \<and> list_all (in_cls k) [] \<and> re_match ps (x # xs) g cap = Some v"
      by simp
    then show ?thesis by blast
  qed
qed

lemma plus_inv:
  assumes "re_match (Plus k # ps) s g cap = Some v"
  shows "\<exists>ws t. s = ws @ t \<and> ws \<noteq> [] \<and> list_all (in_cls k) ws \<and> re_match ps t g cap = Some v"
proof (cases s)
  case Nil
  with assms show ?thesis by simp
next
  case (Cons x xs)
  with assms have x: "in_cls k x" and "re_match (Star k # ps) xs g cap = Some v"
    by (auto split: if_splits)
  from star_inv [OF this(2)] obtain ws t where
    "xs = ws @ t" "list_all (in_cls k) ws" "re_match ps t g cap = Some v" by blast
  with x Cons have "s = (x # ws) @ t \<and> x # ws \<noteq> [] \<and> list_all (in_cls k) (x # ws) \<and> re_match ps t g cap = Some v"
    by simp
  then show ?thesis by blast
qed

lemma rejects_Lit: "\<not> in_cls k c \<Longrightarrow> rejects k (Lit c # ps)"
  by (auto simp: rejects_def)

lemma rejects_Group_close: "rejects k ps \<Longrightarrow> rejects k (Group_close # ps)"
  by (simp add: rejects_def)

lemma star_skip:
  assumes "list_all (in_cls k) ws" and "rejects k ps"
  shows "re_match (Star k # ps) (ws @ s) g cap = re_match (Star k # ps) s g cap"
  using assms
proof (induction ws)
  case Nil
  then show ?case by simp
next
  case (Cons x ws)
  then have "re_match ps (x # ws @ s) g cap = None" by (simp add: rejects_def)
  with Cons show ?case by (simp split: option.splits)
qed

lemma star_lit:
  assumes "list_all (in_cls k) ws" and "\<not> in_cls k x" and "\<not> in_cls k c"
  shows "re_match (Star k # Lit c # ps) (ws @ x # s) g cap =
           (if x = c then re_match ps s g cap else None)"
proof -
  have "re_match (Star k # Lit c # ps) (ws @ x # s) g cap
          = re_match (Star k # Lit c # ps) (x # s) g cap"
    by (rule star_skip [OF assms(1) rejects_Lit [OF assms(3)]])
  with assms(2) show ?thesis by simp
qed

lemma plus_group:
  assumes "list_all (in_cls k) v" and "v \<noteq> []" and "\<not> in_cls k c"
  shows "re_match (Plus k # Group_close # Lit c # ps) (v @ c # s) g cap =
           re_match ps s g (take (length g - Suc (length s)) g)"
proof (cases v)
  case Nil
  with assms show ?thesis by simp
next
  case (Cons x ws)
  with assms have ws: "list_all (in_cls k) ws" and x: "in_cls k x" by simp_all
  have r: "rejects k (Group_close # Lit c # ps)"
    using assms(3) by (simp add: rejects_Group_close rejects_Lit)
  have "re_match (Star k # Group_close # Lit c # ps) (ws @ c # s) g cap
          = re_match (Star k # Group_close # Lit c # ps) (c # s) g cap"
    by (rule star_skip [OF ws r])
  with assms(3) x Cons show ?thesis by simp
qed

lemma spaces_cls: "spaces ws = list_all (in_cls Space) ws"
  by (simp add: spaces_def list_all_iff)

lemma value_cls: "(dquote \<notin> set v) = list_all (in_cls (Not_in [dquote])) v"
  by (induction v) auto

lemma not_space [simp]:
  "\<not> is_space dquote" "\<not> is_space CHR '':''" "\<not> is_space CHR ''{''" "\<not> is_space CHR ''}''"
  by (simp_all add: is_space_def dquote_def)


lemma match_wrapped_form:
  assumes "spaces a" "spaces b" "spaces c" "spaces d" "spaces e" "spaces g"
    and "v \<noteq> []" "dquote \<notin> set v"
  shows "re_match (pattern1 f) (wrapped_form f a b c d e v g @ rest) g0 cap0 = Some v"
proof -
  have "re_match (pattern1 f) (wrapped_form f a b c d e v g @ rest) g0 cap0
      = re_match ([Star Space, Lit CHR '':'', Star Space, Lit CHR ''{'', Star Space]
          @ map Lit (quoted ''string'')
          @ [Star Space, Lit CHR '':'', Star Space,
             Lit dquote, Group_open, Plus (Not_in [dquote]), Group_close, Lit dquote,
             Star Space, Lit CHR ''}''])
          (a @ '':'' @ b @ ''{'' @ c @ quoted ''string'' @ d @ '':'' @ e @ quoted v @ g @ ''}''
             @ rest) g0 cap0"
    unfolding pattern1_def wrapped_form_def by (simp only: append_assoc lits_app)
  also have "\<dots> = Some v"
    using assms by (simp add: spaces_cls value_cls star_lit plus_group quoted_def)
  finally show ?thesis .
qed

lemma match_bare_form:
  assumes "spaces a" "spaces b" and "v \<noteq> []" "dquote \<notin> set v"
  shows "re_match (pattern2 f) (bare_form f a b v @ rest) g0 cap0 = Some v"
proof -
  have "re_match (pattern2 f) (bare_form f a b v @ rest) g0 cap0
      = re_match [Star Space, Lit CHR '':'', Star Space,
             Lit dquote, Group_open, Plus (Not_in [dquote]), Group_close, Lit dquote]
          (a @ '':'' @ b @ quoted v @ rest) g0 cap0"
    unfolding pattern2_def bare_form_def by (simp only: append_assoc lits_app)
  also have "\<dots> = Some v"
    using assms by (simp add: spaces_cls value_cls star_lit plus_group quoted_def)
  finally show ?thesis .
qed

lemma star_lit_inv:
  assumes "re_match (Star Space # Lit c # ps) s g cap = Some v"
  shows "\<exists>ws t. s = ws @ c # t \<and> spaces ws \<and> re_match ps t g cap = Some v"
proof -
  from star_inv [OF assms] obtain ws t0 where
    s: "s = ws @ t0" and ws: "list_all (in_cls Space) ws"
    and m: "re_match (Lit c # ps) t0 g cap = Some v" by blast
  from lit_inv [OF m] obtain t where "t0 = c # t" "re_match ps t g cap = Some v" by blast
  with s ws have "s = ws @ c # t \<and> spaces ws \<and> re_match ps t g cap = Some v"
    by (simp add: spaces_cls)
  then show ?thesis by blast
qed

lemma value_inv:
  assumes "re_match (Lit dquote # Group_open # Plus (Not_in [dquote]) # Group_close
             # Lit dquote # ps) s g cap = Some v"
  shows "\<exists>u t. s = quoted u @ t \<and> u \<noteq> [] \<and> dquote \<notin> set u
           \<and> re_match ps t (u @ dquote # t) u = Some v"
proof -
  from lit_inv [OF assms] obtain s1 where s: "s = dquote # s1"
    and "re_match (Group_open # Plus (Not_in [dquote]) # Group_close # Lit dquote # ps)
           s1 g cap = Some v" by blast
  then have "re_match (Plus (Not_in [dquote]) # Group_close # Lit dquote # ps) s1 s1 cap = Some v"
    by simp
  from plus_inv [OF this] obtain u t1 where s1: "s1 = u @ t1" and u: "u \<noteq> []"
    and cls: "list_all (in_cls (Not_in [dquote])) u"
    and "re_match (Group_close # Lit dquote # ps) t1 s1 cap = Some v" by blast
  then have "re_match (Lit dquote # ps) t1 s1 u = Some v" by simp
  from lit_inv [OF this] obtain t where t1: "t1 = dquote # t"
    and m: "re_match ps t s1 u = Some v" by blast
  from s s1 t1 u cls m
  have "s = quoted u @ t \<and> u \<noteq> [] \<and> dquote \<notin> set u
          \<and> re_match ps t (u @ dquote # t) u = Some v"
    by (simp add: quoted_def value_cls)
  then show ?thesis by blast
qed

lemma match_pattern2_inv:
  assumes "re_match (pattern2 f) s g0 cap0 = Some v"
  shows "bare_at f s v"
proof -
  from assms lits_inv [of "quoted f" _ s g0 cap0 v]
  obtain t0 where s: "s = quoted f @ t0"
    and "re_match (Star Space # Lit CHR '':'' # Star Space # Lit dquote # Group_open
           # Plus (Not_in [dquote]) # Group_close # Lit dquote # []) t0 g0 cap0 = Some v"
    unfolding pattern2_def by auto
  from star_lit_inv [OF this(2)] obtain a t1 where t0: "t0 = a @ CHR '':'' # t1" and a: "spaces a"
    and "re_match (Star Space # Lit dquote # Group_open
           # Plus (Not_in [dquote]) # Group_close # Lit dquote # []) t1 g0 cap0 = Some v"
    by blast
  from star_inv [OF this(3)] obtain b t2 where t1: "t1 = b @ t2" and b: "list_all (in_cls Space) b"
    and "re_match (Lit dquote # Group_open
           # Plus (Not_in [dquote]) # Group_close # Lit dquote # []) t2 g0 cap0 = Some v"
    by blast
  from value_inv [OF this(3)] obtain u t where t2: "t2 = quoted u @ t" and u: "u \<noteq> []" "dquote \<notin> set u"
    and "re_match [] t (u @ dquote # t) u = Some v" by blast
  then have v: "v = u" by simp
  have "s = bare_form f a b v @ t"
    by (simp add: s t0 t1 t2 v bare_form_def)
  with a b u v show ?thesis
    unfolding bare_at_def spaces_cls by blast
qed

lemma match_pattern1_inv:
  assumes "re_match (pattern1 f) s g0 cap0 = Some v"
  shows "wrapped_at f s v"
proof -
  from assms lits_inv [of "quoted f" _ s g0 cap0 v]
  obtain t0 where s: "s = quoted f @ t0"
    and "re_match (Star Space # Lit CHR '':'' # Star Space # Lit CHR ''{'' # Star Space
           # Lit dquote # map Lit (''string'' @ [dquote])
           @ [Star Space, Lit CHR '':'', Star Space, Lit dquote, Group_open,
              Plus (Not_in [dquote]), Group_close, Lit dquote, Star Space, Lit CHR ''}''])
           t0 g0 cap0 = Some v"
    unfolding pattern1_def quoted_def by auto
  from star_lit_inv [OF this(2)] obtain a t1 where t0: "t0 = a @ CHR '':'' # t1" and a: "spaces a"
    and "re_match (Star Space # Lit CHR ''{'' # Star Space
           # Lit dquote # map Lit (''string'' @ [dquote])
           @ [Star Space, Lit CHR '':'', Star Space, Lit dquote, Group_open,
              Plus (Not_in [dquote]), Group_close, Lit dquote, Star Space, Lit CHR ''}''])
           t1 g0 cap0 = Some v"
    by blast
  from star_lit_inv [OF this(3)] obtain b t2 where t1: "t1 = b @ CHR ''{'' # t2" and b: "spaces b"
    and "re_match (Star Space
           # Lit dquote # map Lit (''string'' @ [dquote])
           @ [Star Space, Lit CHR '':'', Star Space, Lit dquote, Group_open,
              Plus (Not_in [dquote]), Group_close, Lit dquote, Star Space, Lit CHR ''}''])
           t2 g0 cap0 = Some v"
    by blast
  from star_lit_inv [OF this(3)] obtain c t3 where t2: "t2 = c @ dquote # t3" and c: "spaces c"
    and "re_match (map Lit (''string'' @ [dquote])
           @ [Star Space, Lit CHR '':'', Star Space, Lit dquote, Group_open,
              Plus (Not_in [dquote]), Group_close, Lit dquote, Star Space, Lit CHR ''}''])
           t3 g0 cap0 = Some v"
    by blast
  from lits_inv [OF this(3)] obtain t4 where t3: "t3 = (''string'' @ [dquote]) @ t4"
    and "re_match [Star Space, Lit CHR '':'', Star Space, Lit dquote, Group_open,
              Plus (Not_in [dquote]), Group_close, Lit dquote, Star Space, Lit CHR ''}'']
           t4 g0 cap0 = Some v"
    by blast
  from star_lit_inv [OF this(2)] obtain d t5 where t4: "t4 = d @ CHR '':'' # t5" and d: "spaces d"
    and "re_match [Star Space, Lit dquote, Group_open,
              Plus (Not_in [dquote]), Group_close, Lit dquote, Star Space, Lit CHR ''}'']
           t5 g0 cap0 = Some v"
    by blast
  from star_inv [OF this(3)] obtain e t6 where t5: "t5 = e @ t6" and e: "list_all (in_cls Space) e"
    and "re_match [Lit dquote, Group_open,
              Plus (Not_in [dquote]), Group_close, Lit dquote, Star Space, Lit CHR ''}'']
           t6 g0 cap0 = Some v"
    by blast
  from value_inv [OF this(3)] obtain u t7 where t6: "t6 = quoted u @ t7"
    and u: "u \<noteq> []" "dquote \<notin> set u"
    and "re_match [Star Space, Lit CHR ''}''] t7 (u @ dquote # t7) u = Some v" by blast
  from star_lit_inv [OF this(4)] obtain g rest where t7: "t7 = g @ CHR ''}'' # rest"
    and g: "spaces g" and "re_match [] rest (u @ dquote # t7) u = Some v" by blast
  then have v: "v = u" by simp
  have "s = wrapped_form f a b c d e v g @ rest"
    by (simp add: s t0 t1 t2 t3 t4 t5 t6 t7 v wrapped_form_def quoted_def)
  with a b c d e g u v show ?thesis
    unfolding wrapped_at_def spaces_cls by blast
qed

lemma match_pattern1_iff: "re_match (pattern1 f) s g0 cap0 = Some v \<longleftrightarrow> wrapped_at f s v"
proof
  assume "re_match (pattern1 f) s g0 cap0 = Some v"
  then show "wrapped_at f s v" by (rule match_pattern1_inv)
next
  assume "wrapped_at f s v"
  then show "re_match (pattern1 f) s g0 cap0 = Some v"
    unfolding wrapped_at_def using match_wrapped_form by blast
qed

lemma match_pattern2_iff: "re_match (pattern2 f) s g0 cap0 = Some v \<longleftrightarrow> bare_at f s v"
proof
  assume "re_match (pattern2 f) s g0 cap0 = Some v"
  then show "bare_at f s v" by (rule match_pattern2_inv)
next
  assume "bare_at f s v"
  then show "re_match (pattern2 f) s g0 cap0 = Some v"
    unfolding bare_at_def using match_bare_form by blast
qed

lemma re_search_skip:
  assumes "\<forall>i<length pre. re_match p (drop i (pre @ s)) [] [] = None"
  shows "re_search p (pre @ s) = re_search p s"
  using assms
proof (induction pre)
  case Nil
  then show ?case by simp
next
  case (Cons x pre)
  from Cons.prems have "re_match p (drop 0 ((x # pre) @ s)) [] [] = None" by blast
  then have h: "re_match p (x # pre @ s) [] [] = None" by simp
  have "\<forall>i<length pre. re_match p (drop i (pre @ s)) [] [] = None"
  proof (intro allI impI)
    fix i assume "i < length pre"
    then have "Suc i < length (x # pre)" by simp
    with Cons.prems have "re_match p (drop (Suc i) ((x # pre) @ s)) [] [] = None" by blast
    then show "re_match p (drop i (pre @ s)) [] [] = None" by simp
  qed
  from Cons.IH [OF this] h show ?case by simp
qed

lemma re_search_hit: "re_match p s [] [] = Some v \<Longrightarrow> re_search p s = Some v"
  by (cases s) simp_all

lemma re_search_None_iff:
  "re_search p s = None \<longleftrightarrow> (\<forall>i\<le>length s. re_match p (drop i s) [] [] = None)"
proof (induction s)
  case Nil
  then show ?case by simp
next
  case (Cons x xs)
  have "(\<forall>i\<le>length (x # xs). re_match p (drop i (x # xs)) [] [] = None)
        \<longleftrightarrow> re_match p (x # xs) [] [] = None
             \<and> (\<forall>i\<le>length xs. re_match p (drop i xs) [] [] = None)"
  proof
    assume h: "\<forall>i\<le>length (x # xs). re_match p (drop i (x # xs)) [] [] = None"
    then have "re_match p (drop 0 (x # xs)) [] [] = None" by blast
    moreover have "re_match p (drop i xs) [] [] = None" if "i \<le> length xs" for i
      using h that by (auto dest: spec [of _ "Suc i"])
    ultimately show "re_match p (x # xs) [] [] = None
             \<and> (\<forall>i\<le>length xs. re_match p (drop i xs) [] [] = None)" by simp
  next
    assume h: "re_match p (x # xs) [] [] = None
             \<and> (\<forall>i\<le>length xs. re_match p (drop i xs) [] [] = None)"
    show "\<forall>i\<le>length (x # xs). re_match p (drop i (x # xs)) [] [] = None"
    proof (intro allI impI)
      fix i assume "i \<le> length (x # xs)"
      with h show "re_match p (drop i (x # xs)) [] [] = None"
        by (cases i) simp_all
    qed
  qed
  with Cons.IH show ?case by (simp split: option.splits)
qed

lemma re_search_Some:
  assumes "re_search p s = Some v"
  shows "\<exists>i\<le>length s. re_match p (drop i s) [] [] = Some v
           \<and> (\<forall>j<i. re_match p (drop j s) [] [] = None)"
  using assms
proof (induction s)
  case Nil
  then show ?case by simp
next
  case (Cons x xs)
  show ?case
  proof (cases "re_match p (x # xs) [] []")
    case (Some r)
    with Cons.prems have "re_match p (drop 0 (x # xs)) [] [] = Some v" by simp
    then have "0 \<le> length (x # xs) \<and> re_match p (drop 0 (x # xs)) [] [] = Some v
           \<and> (\<forall>j<0. re_match p (drop j (x # xs)) [] [] = None)" by simp
    then show ?thesis by blast
  next
    case None
    with Cons.prems have "re_search p xs = Some v" by simp
    from Cons.IH [OF this] obtain i where i: "i \<le> length xs"
      "re_match p (drop i xs) [] [] = Some v"
      "\<forall>j<i. re_match p (drop j xs) [] [] = None" by blast
    have "\<forall>j<Suc i. re_match p (drop j (x # xs)) [] [] = None"
    proof (intro allI impI)
      fix j assume "j < Suc i"
      with i(3) None show "re_match p (drop j (x # xs)) [] [] = None"
        by (cases j) simp_all
    qed
    with i have "Suc i \<le> length (x # xs) \<and> re_match p (drop (Suc i) (x # xs)) [] [] = Some v
           \<and> (\<forall>j<Suc i. re_match p (drop j (x # xs)) [] [] = None)" by simp
    then show ?thesis by blast
  qed
qed

section \<open>The field extractor\<close>

text \<open>
  A start position where no occurrence begins is one where the matcher returns
  \<open>None\<close>; the search returns the match at the leftmost position that has one.
\<close>

lemma not_wrapped_iff:
  "(\<forall>u. \<not> wrapped_at f s u) \<longleftrightarrow> re_match (pattern1 f) s [] [] = None"
  using match_pattern1_iff [of f s "[]" "[]"] by (cases "re_match (pattern1 f) s [] []") auto

lemma not_bare_iff:
  "(\<forall>u. \<not> bare_at f s u) \<longleftrightarrow> re_match (pattern2 f) s [] [] = None"
  using match_pattern2_iff [of f s "[]" "[]"] by (cases "re_match (pattern2 f) s [] []") auto

lemma all_less_upt: "(\<forall>i<n. P i) \<longleftrightarrow> list_all P [0..<n]"
  by (auto simp: list_all_iff)

lemma all_le_upt: "(\<forall>i\<le>n. P i) \<longleftrightarrow> list_all P [0..<Suc n]"
  by (auto simp: list_all_iff less_Suc_eq_le)

lemma dquote_neq: "dquote \<noteq> CHR ''{''" "CHR ''{'' \<noteq> dquote"
  by (simp_all add: dquote_def)

lemma search_leftmost_wrapped:
  assumes "spaces a" "spaces b" "spaces c" "spaces d" "spaces e" "spaces g"
    and "v \<noteq> []" "dquote \<notin> set v"
    and raw: "raw = pre @ wrapped_form f a b c d e v g @ post"
    and first: "\<forall>i<length pre. \<forall>u. \<not> wrapped_at f (drop i raw) u"
  shows "re_search (pattern1 f) raw = Some v"
proof -
  have "\<forall>i<length pre. re_match (pattern1 f)
          (drop i (pre @ wrapped_form f a b c d e v g @ post)) [] [] = None"
    using first unfolding raw not_wrapped_iff .
  then have "re_search (pattern1 f) raw
               = re_search (pattern1 f) (wrapped_form f a b c d e v g @ post)"
    unfolding raw by (rule re_search_skip)
  also have "\<dots> = Some v"
    by (rule re_search_hit) (rule match_wrapped_form [OF assms(1-8)])
  finally show ?thesis .
qed

lemma search_leftmost_bare:
  assumes "spaces a" "spaces b" and "v \<noteq> []" "dquote \<notin> set v"
    and raw: "raw = pre @ bare_form f a b v @ post"
    and first: "\<forall>i<length pre. \<forall>u. \<not> bare_at f (drop i raw) u"
  shows "re_search (pattern2 f) raw = Some v"
proof -
  have "\<forall>i<length pre. re_match (pattern2 f)
          (drop i (pre @ bare_form f a b v @ post)) [] [] = None"
    using first unfolding raw not_bare_iff .
  then have "re_search (pattern2 f) raw = re_search (pattern2 f) (bare_form f a b v @ post)"
    unfolding raw by (rule re_search_skip)
  also have "\<dots> = Some v"
    by (rule re_search_hit) (rule match_bare_form [OF assms(1-4)])
  finally show ?thesis .
qed

lemma search_no_wrapped:
  "(\<forall>i\<le>length raw. \<forall>u. \<not> wrapped_at f (drop i raw) u) \<longleftrightarrow> re_search (pattern1 f) raw = None"
  unfolding not_wrapped_iff re_search_None_iff ..

lemma search_no_bare:
  "(\<forall>i\<le>length raw. \<forall>u. \<not> bare_at f (drop i raw) u) \<longleftrightarrow> re_search (pattern2 f) raw = None"
  unfolding not_bare_iff re_search_None_iff ..

lemma parse_usrname:
  "usrname (parse_avro_string now raw) = Some (extract_string_value raw ''usrname'')"
  by (simp add: parse_avro_string_def parse_avro_string_with_def try_parse_def bind_exn_def
      extract_step_def)

text \<open>
  C3, as stated, fails. The text
  \<^verbatim>\<open>"usrname": {"string": "bob"}, "usrname": {"string": "alice"}\<close>
  contains a wrapped-form declaration of \<^verbatim>\<open>usrname\<close> with the value \<^verbatim>\<open>alice\<close>, and
  the extractor returns \<^verbatim>\<open>bob\<close>, the value of the declaration to its left: the search
  stops at the first match.
\<close>

theorem wrapped_form_extraction_counterexample:
  "extract_string_value
     (wrapped_form ''usrname'' '''' '' '' '''' '''' '' '' ''bob'' '''' @ '', ''
      @ wrapped_form ''usrname'' '''' '' '' '''' '''' '' '' ''alice'' '''') ''usrname'' = ''bob''
   \<and> usrname (parse_avro_string ''2024-05-01T10:00:00''
        (wrapped_form ''usrname'' '''' '' '' '''' '''' '' '' ''bob'' '''' @ '', ''
         @ wrapped_form ''usrname'' '''' '' '' '''' '''' '' '' ''alice'' '''')) \<noteq> Some ''alice''"
  by (simp add: parse_usrname extract_string_value_def pattern1_def wrapped_form_def quoted_def
      dquote_def is_space_def)

text \<open>
  C3, amended. Let the raw text contain a wrapped-form declaration of the field, with
  white space of any length around the colons and braces and a value that is not empty
  and has no double quote, and let no wrapped-form declaration of that field begin to
  its left. Then the extractor returns its value, and for \<^verbatim>\<open>usrname\<close> (the spec's
  username) this is the \<open>usrname\<close> of the parsed record. The field name is one that the
  pattern reads literally.
\<close>

theorem wrapped_form_extraction:
  assumes "plain_name f"
    and "spaces a" "spaces b" "spaces c" "spaces d" "spaces e" "spaces g"
    and "v \<noteq> []" "dquote \<notin> set v"
    and "raw = pre @ wrapped_form f a b c d e v g @ post"
    and "\<forall>i<length pre. \<forall>u. \<not> wrapped_at f (drop i raw) u"
  shows "extract_string_value raw f = v
    \<and> (f = ''usrname'' \<longrightarrow> usrname (parse_avro_string now raw) = Some v)"
proof -
  have "re_search (pattern1 f) raw = Some v"
    by (rule search_leftmost_wrapped [OF assms(2-11)])
  then have "extract_string_value raw f = v"
    by (simp add: extract_string_value_def)
  then show ?thesis by (auto simp: parse_usrname)
qed

text \<open>
  The text \<^verbatim>\<open>{"creat_time": "09:30", "usrname": {"string": "alice"}}\<close>.
\<close>

theorem wrapped_form_extraction_witness:
  "extract_string_value
     (''{'' @ bare_form ''creat_time'' '''' '' '' ''09:30'' @ '', ''
      @ wrapped_form ''usrname'' '''' '' '' '''' '''' '' '' ''alice'' '''' @ ''}'') ''usrname''
     = ''alice''
   \<and> usrname (parse_avro_string ''2024-05-01T10:00:00''
       (''{'' @ bare_form ''creat_time'' '''' '' '' ''09:30'' @ '', ''
        @ wrapped_form ''usrname'' '''' '' '' '''' '''' '' '' ''alice'' '''' @ ''}'')) = Some ''alice''"
proof -
  have p: "plain_name ''usrname''" by (simp add: plain_name_def)
  have s0: "spaces ''''" and s1: "spaces '' ''" by (simp_all add: spaces_def is_space_def)
  have v: "''alice'' \<noteq> []" "dquote \<notin> set ''alice''" by (simp_all add: dquote_def)
  have r: "(''{'' @ bare_form ''creat_time'' '''' '' '' ''09:30'' @ '', ''
      @ wrapped_form ''usrname'' '''' '' '' '''' '''' '' '' ''alice'' '''' @ ''}'')
      = (''{'' @ bare_form ''creat_time'' '''' '' '' ''09:30'' @ '', '')
      @ wrapped_form ''usrname'' '''' '' '' '''' '''' '' '' ''alice'' '''' @ ''}''" by simp
  have first: "\<forall>i<length (''{'' @ bare_form ''creat_time'' '''' '' '' ''09:30'' @ '', '').
      \<forall>u. \<not> wrapped_at ''usrname'' (drop i (''{'' @ bare_form ''creat_time'' '''' '' '' ''09:30'' @ '', ''
      @ wrapped_form ''usrname'' '''' '' '' '''' '''' '' '' ''alice'' '''' @ ''}'')) u"
    unfolding not_wrapped_iff all_less_upt
    by (simp add: pattern1_def bare_form_def wrapped_form_def quoted_def dquote_def is_space_def
        upt_rec)
  from wrapped_form_extraction [OF p s0 s1 s0 s0 s1 s0 v r first, of "''2024-05-01T10:00:00''"]
  show ?thesis by simp
qed

text \<open>
  C4, as stated, fails. The text \<^verbatim>\<open>"usrname": "bob", "usrname": "alice"\<close> has no
  wrapped-form occurrence of \<^verbatim>\<open>usrname\<close> and contains the bare-form declaration with
  the value \<^verbatim>\<open>alice\<close>; the extractor returns \<^verbatim>\<open>bob\<close>, the value of the declaration
  to its left.
\<close>

theorem bare_form_extraction_counterexample:
  "re_search (pattern1 ''usrname'')
     (bare_form ''usrname'' '''' '' '' ''bob'' @ '', '' @ bare_form ''usrname'' '''' '' '' ''alice'')
     = None
   \<and> extract_string_value
     (bare_form ''usrname'' '''' '' '' ''bob'' @ '', '' @ bare_form ''usrname'' '''' '' '' ''alice'')
     ''usrname'' = ''bob''
   \<and> usrname (parse_avro_string ''2024-05-01T10:00:00''
        (bare_form ''usrname'' '''' '' '' ''bob'' @ '', ''
         @ bare_form ''usrname'' '''' '' '' ''alice'')) \<noteq> Some ''alice''"
  by (simp add: parse_usrname extract_string_value_def pattern1_def pattern2_def bare_form_def
      quoted_def dquote_def is_space_def)

text \<open>
  C4, amended. Let no wrapped-form occurrence of the field begin anywhere in the raw
  text, let the text contain a bare-form declaration of the field with a value that is
  not empty and has no double quote, and let no bare-form declaration of that field
  begin to its left. Then the extractor returns its value, and for \<^verbatim>\<open>usrname\<close> this is
  the \<open>usrname\<close> of the parsed record.
\<close>

theorem bare_form_extraction:
  assumes "plain_name f"
    and "spaces a" "spaces b"
    and "v \<noteq> []" "dquote \<notin> set v"
    and "raw = pre @ bare_form f a b v @ post"
    and "\<forall>i\<le>length raw. \<forall>u. \<not> wrapped_at f (drop i raw) u"
    and "\<forall>i<length pre. \<forall>u. \<not> bare_at f (drop i raw) u"
  shows "extract_string_value raw f = v
    \<and> (f = ''usrname'' \<longrightarrow> usrname (parse_avro_string now raw) = Some v)"
proof -
  have 1: "re_search (pattern1 f) raw = None"
    using assms(7) by (simp only: search_no_wrapped)
  have 2: "re_search (pattern2 f) raw = Some v"
    by (rule search_leftmost_bare [OF assms(2-6) assms(8)])
  from 1 2 have "extract_string_value raw f = v"
    by (simp add: extract_string_value_def)
  then show ?thesis by (auto simp: parse_usrname)
qed

text \<open>
  The text \<^verbatim>\<open>{"creat_time": {"string": "09:30"}, "usrname": "alice"}\<close>.
\<close>

theorem bare_form_extraction_witness:
  "re_search (pattern1 ''usrname'')
     (''{'' @ wrapped_form ''creat_time'' '''' '' '' '''' '''' '' '' ''09:30'' '''' @ '', ''
      @ bare_form ''usrname'' '''' '' '' ''alice'' @ ''}'') = None
   \<and> extract_string_value
     (''{'' @ wrapped_form ''creat_time'' '''' '' '' '''' '''' '' '' ''09:30'' '''' @ '', ''
      @ bare_form ''usrname'' '''' '' '' ''alice'' @ ''}'') ''usrname''
     = ''alice''
   \<and> usrname (parse_avro_string ''2024-05-01T10:00:00''
       (''{'' @ wrapped_form ''creat_time'' '''' '' '' '''' '''' '' '' ''09:30'' '''' @ '', ''
        @ bare_form ''usrname'' '''' '' '' ''alice'' @ ''}'')) = Some ''alice''"
proof -
  have p: "plain_name ''usrname''" by (simp add: plain_name_def)
  have s0: "spaces ''''" and s1: "spaces '' ''" by (simp_all add: spaces_def is_space_def)
  have v: "''alice'' \<noteq> []" "dquote \<notin> set ''alice''" by (simp_all add: dquote_def)
  have r: "(''{'' @ wrapped_form ''creat_time'' '''' '' '' '''' '''' '' '' ''09:30'' '''' @ '', ''
      @ bare_form ''usrname'' '''' '' '' ''alice'' @ ''}'')
      = (''{'' @ wrapped_form ''creat_time'' '''' '' '' '''' '''' '' '' ''09:30'' '''' @ '', '')
      @ bare_form ''usrname'' '''' '' '' ''alice'' @ ''}''" by simp
  have n: "re_search (pattern1 ''usrname'')
     (''{'' @ wrapped_form ''creat_time'' '''' '' '' '''' '''' '' '' ''09:30'' '''' @ '', ''
      @ bare_form ''usrname'' '''' '' '' ''alice'' @ ''}'') = None"
    by (simp add: pattern1_def bare_form_def wrapped_form_def quoted_def dquote_def is_space_def)
  have nowrapped: "\<forall>i\<le>length (''{'' @ wrapped_form ''creat_time'' '''' '' '' '''' '''' '' '' ''09:30'' '''' @ '', ''
      @ bare_form ''usrname'' '''' '' '' ''alice'' @ ''}'').
      \<forall>u. \<not> wrapped_at ''usrname'' (drop i (''{'' @ wrapped_form ''creat_time'' '''' '' '' '''' '''' '' '' ''09:30'' '''' @ '', ''
      @ bare_form ''usrname'' '''' '' '' ''alice'' @ ''}'')) u"
    using n by (simp only: search_no_wrapped)
  have first: "\<forall>i<length (''{'' @ wrapped_form ''creat_time'' '''' '' '' '''' '''' '' '' ''09:30'' '''' @ '', '').
      \<forall>u. \<not> bare_at ''usrname'' (drop i (''{'' @ wrapped_form ''creat_time'' '''' '' '' '''' '''' '' '' ''09:30'' '''' @ '', ''
      @ bare_form ''usrname'' '''' '' '' ''alice'' @ ''}'')) u"
    unfolding not_bare_iff all_less_upt
    by (simp add: pattern2_def bare_form_def wrapped_form_def quoted_def dquote_def is_space_def
        upt_rec)
  from n bare_form_extraction [OF p s0 s1 v r nowrapped first, of "''2024-05-01T10:00:00''"]
  show ?thesis by simp
qed

text \<open>
  C5, as stated, fails, in two ways. In the text
  \<^verbatim>\<open>"usrname": {"string": ""}, "usrname": "bob"\<close> the field stands in the wrapped form
  and in the bare form; pattern 1 does not match a wrapped form whose value is empty, so
  pattern 2 decides and the extractor returns \<^verbatim>\<open>bob\<close>, the bare form's value. In the
  text \<^verbatim>\<open>"usrname": {"string": "bob"}, "usrname": {"string": "alice"}, "usrname": "carol"\<close>
  the wrapped form with the value \<^verbatim>\<open>alice\<close> and a bare form are both present, and the
  extractor returns \<^verbatim>\<open>bob\<close>, the value of the wrapped form further left.
\<close>

theorem strategy_precedence_counterexample:
  "extract_string_value
     (wrapped_form ''usrname'' '''' '' '' '''' '''' '' '' '''' '''' @ '', ''
      @ bare_form ''usrname'' '''' '' '' ''bob'') ''usrname'' = ''bob''
   \<and> extract_string_value
     (wrapped_form ''usrname'' '''' '' '' '''' '''' '' '' '''' '''' @ '', ''
      @ bare_form ''usrname'' '''' '' '' ''bob'') ''usrname'' \<noteq> ''''
   \<and> extract_string_value
     (wrapped_form ''usrname'' '''' '' '' '''' '''' '' '' ''bob'' '''' @ '', ''
      @ wrapped_form ''usrname'' '''' '' '' '''' '''' '' '' ''alice'' '''' @ '', ''
      @ bare_form ''usrname'' '''' '' '' ''carol'') ''usrname'' = ''bob''
   \<and> extract_string_value
     (wrapped_form ''usrname'' '''' '' '' '''' '''' '' '' ''bob'' '''' @ '', ''
      @ wrapped_form ''usrname'' '''' '' '' '''' '''' '' '' ''alice'' '''' @ '', ''
      @ bare_form ''usrname'' '''' '' '' ''carol'') ''usrname'' \<noteq> ''alice''"
  by (simp add: extract_string_value_def pattern1_def pattern2_def wrapped_form_def
      bare_form_def quoted_def dquote_def is_space_def)

text \<open>
  C5, amended. Let the raw text contain, for one field, a wrapped-form occurrence whose
  value \<open>v\<close> is not empty and has no double quote, and a bare-form occurrence with such a
  value \<open>w\<close>, each wherever it stands. Then the extractor returns the value of a
  wrapped-form occurrence, the leftmost one; it returns \<open>v\<close> when no wrapped-form
  occurrence begins to the left of the given one. Where the bare-form occurrence stands
  plays no part.
\<close>

theorem strategy_precedence:
  assumes "plain_name f"
    and "spaces a" "spaces b" "spaces c" "spaces d" "spaces e" "spaces g"
    and "v \<noteq> []" "dquote \<notin> set v"
    and "raw = p1 @ wrapped_form f a b c d e v g @ q1"
    and "spaces a'" "spaces b'" and "w \<noteq> []" "dquote \<notin> set w"
    and "raw = p2 @ bare_form f a' b' w @ q2"
  shows "(\<exists>i u. i \<le> length p1 \<and> wrapped_at f (drop i raw) u
            \<and> (\<forall>j<i. \<forall>x. \<not> wrapped_at f (drop j raw) x)
            \<and> extract_string_value raw f = u)
    \<and> ((\<forall>j<length p1. \<forall>x. \<not> wrapped_at f (drop j raw) x) \<longrightarrow> extract_string_value raw f = v)"
proof -
  have here: "re_match (pattern1 f) (drop (length p1) raw) [] [] = Some v"
    unfolding assms(10) using match_wrapped_form [OF assms(2-9)] by simp
  have "re_search (pattern1 f) raw \<noteq> None"
  proof
    assume "re_search (pattern1 f) raw = None"
    then have "\<forall>i\<le>length raw. re_match (pattern1 f) (drop i raw) [] [] = None"
      by (simp only: re_search_None_iff)
    moreover have "length p1 \<le> length raw" unfolding assms(10) by simp
    ultimately have "re_match (pattern1 f) (drop (length p1) raw) [] [] = None" by blast
    with here show False by simp
  qed
  then obtain u where u: "re_search (pattern1 f) raw = Some u" by blast
  from re_search_Some [OF u] obtain i where i: "i \<le> length raw"
    "re_match (pattern1 f) (drop i raw) [] [] = Some u"
    "\<forall>j<i. re_match (pattern1 f) (drop j raw) [] [] = None" by blast
  have le: "i \<le> length p1"
  proof (rule ccontr)
    assume "\<not> i \<le> length p1"
    then have "length p1 < i" by simp
    with i(3) have "re_match (pattern1 f) (drop (length p1) raw) [] [] = None" by blast
    with here show False by simp
  qed
  have w: "wrapped_at f (drop i raw) u"
    using i(2) by (simp only: match_pattern1_iff)
  have first: "\<forall>j<i. \<forall>x. \<not> wrapped_at f (drop j raw) x"
    using i(3) by (simp only: not_wrapped_iff)
  have ex: "extract_string_value raw f = u"
    using u by (simp add: extract_string_value_def)
  have A: "\<exists>i u. i \<le> length p1 \<and> wrapped_at f (drop i raw) u
            \<and> (\<forall>j<i. \<forall>x. \<not> wrapped_at f (drop j raw) x)
            \<and> extract_string_value raw f = u"
    using le w first ex by blast
  have B: "(\<forall>j<length p1. \<forall>x. \<not> wrapped_at f (drop j raw) x) \<longrightarrow> extract_string_value raw f = v"
  proof
    assume "\<forall>j<length p1. \<forall>x. \<not> wrapped_at f (drop j raw) x"
    from search_leftmost_wrapped [OF assms(2-10) this]
    show "extract_string_value raw f = v"
      by (simp add: extract_string_value_def)
  qed
  from A B show ?thesis by blast
qed

text \<open>
  The texts \<^verbatim>\<open>{"usrname": {"string": "alice"}, "usrname": "bob"}\<close> and
  \<^verbatim>\<open>{"usrname": "bob", "usrname": {"string": "alice"}}\<close>: the two orders.
\<close>

theorem strategy_precedence_witness:
  "extract_string_value
     (''{'' @ wrapped_form ''usrname'' '''' '' '' '''' '''' '' '' ''alice'' '''' @ '', ''
      @ bare_form ''usrname'' '''' '' '' ''bob'' @ ''}'') ''usrname'' = ''alice''
   \<and> extract_string_value
     (''{'' @ bare_form ''usrname'' '''' '' '' ''bob'' @ '', ''
      @ wrapped_form ''usrname'' '''' '' '' '''' '''' '' '' ''alice'' '''' @ ''}'') ''usrname'' = ''alice''"
proof -
  have p: "plain_name ''usrname''" by (simp add: plain_name_def)
  have s0: "spaces ''''" and s1: "spaces '' ''" by (simp_all add: spaces_def is_space_def)
  have v: "''alice'' \<noteq> []" "dquote \<notin> set ''alice''" by (simp_all add: dquote_def)
  have w: "''bob'' \<noteq> []" "dquote \<notin> set ''bob''" by (simp_all add: dquote_def)
  have r1: "(''{'' @ wrapped_form ''usrname'' '''' '' '' '''' '''' '' '' ''alice'' '''' @ '', ''
      @ bare_form ''usrname'' '''' '' '' ''bob'' @ ''}'')
      = ''{'' @ wrapped_form ''usrname'' '''' '' '' '''' '''' '' '' ''alice'' ''''
        @ ('', '' @ bare_form ''usrname'' '''' '' '' ''bob'' @ ''}'')" by simp
  have r2: "(''{'' @ wrapped_form ''usrname'' '''' '' '' '''' '''' '' '' ''alice'' '''' @ '', ''
      @ bare_form ''usrname'' '''' '' '' ''bob'' @ ''}'')
      = (''{'' @ wrapped_form ''usrname'' '''' '' '' '''' '''' '' '' ''alice'' '''' @ '', '')
        @ bare_form ''usrname'' '''' '' '' ''bob'' @ ''}''" by simp
  have first1: "\<forall>j<length ''{''. \<forall>x. \<not> wrapped_at ''usrname''
      (drop j (''{'' @ wrapped_form ''usrname'' '''' '' '' '''' '''' '' '' ''alice'' '''' @ '', ''
      @ bare_form ''usrname'' '''' '' '' ''bob'' @ ''}'')) x"
    unfolding not_wrapped_iff all_less_upt
    by (simp add: pattern1_def bare_form_def wrapped_form_def quoted_def dquote_def is_space_def
        upt_rec)
  have q1: "(''{'' @ bare_form ''usrname'' '''' '' '' ''bob'' @ '', ''
      @ wrapped_form ''usrname'' '''' '' '' '''' '''' '' '' ''alice'' '''' @ ''}'')
      = (''{'' @ bare_form ''usrname'' '''' '' '' ''bob'' @ '', '')
        @ wrapped_form ''usrname'' '''' '' '' '''' '''' '' '' ''alice'' '''' @ ''}''" by simp
  have q2: "(''{'' @ bare_form ''usrname'' '''' '' '' ''bob'' @ '', ''
      @ wrapped_form ''usrname'' '''' '' '' '''' '''' '' '' ''alice'' '''' @ ''}'')
      = ''{'' @ bare_form ''usrname'' '''' '' '' ''bob''
        @ ('', '' @ wrapped_form ''usrname'' '''' '' '' '''' '''' '' '' ''alice'' '''' @ ''}'')" by simp
  have first2: "\<forall>j<length (''{'' @ bare_form ''usrname'' '''' '' '' ''bob'' @ '', '').
      \<forall>x. \<not> wrapped_at ''usrname''
      (drop j (''{'' @ bare_form ''usrname'' '''' '' '' ''bob'' @ '', ''
      @ wrapped_form ''usrname'' '''' '' '' '''' '''' '' '' ''alice'' '''' @ ''}'')) x"
    unfolding not_wrapped_iff all_less_upt
    by (simp add: pattern1_def bare_form_def wrapped_form_def quoted_def dquote_def is_space_def
        upt_rec)
  from strategy_precedence [OF p s0 s1 s0 s0 s1 s0 v r1 s0 s1 w r2] first1
  have a: "extract_string_value
     (''{'' @ wrapped_form ''usrname'' '''' '' '' '''' '''' '' '' ''alice'' '''' @ '', ''
      @ bare_form ''usrname'' '''' '' '' ''bob'' @ ''}'') ''usrname'' = ''alice''"
    by blast
  from strategy_precedence [OF p s0 s1 s0 s0 s1 s0 v q1 s0 s1 w q2] first2
  have b: "extract_string_value
     (''{'' @ bare_form ''usrname'' '''' '' '' ''bob'' @ '', ''
      @ wrapped_form ''usrname'' '''' '' '' '''' '''' '' '' ''alice'' '''' @ ''}'') ''usrname'' = ''alice''"
    by blast
  from a b show ?thesis by blast
qed

text \<open>
  At a declaration with an empty value neither pattern matches, whatever follows it:
  \<^verbatim>\<open>[^"]+\<close> needs one character that is not a double quote, and the bare pattern
  does not get past the brace of the wrapped form.
\<close>

lemma empty_bare_no_match:
  assumes "spaces a" "spaces b"
  shows "re_match (pattern1 f) (bare_form f a b [] @ post) g0 cap0 = None"
    and "re_match (pattern2 f) (bare_form f a b [] @ post) g0 cap0 = None"
proof -
  have "re_match (pattern1 f) (bare_form f a b [] @ post) g0 cap0
      = re_match ([Star Space, Lit CHR '':'', Star Space, Lit CHR ''{'', Star Space]
          @ map Lit (quoted ''string'')
          @ [Star Space, Lit CHR '':'', Star Space,
             Lit dquote, Group_open, Plus (Not_in [dquote]), Group_close, Lit dquote,
             Star Space, Lit CHR ''}''])
          (a @ '':'' @ b @ quoted [] @ post) g0 cap0"
    unfolding pattern1_def bare_form_def by (simp only: append_assoc lits_app)
  also have "\<dots> = None"
    using assms by (simp add: spaces_cls star_lit quoted_def dquote_neq)
  finally show "re_match (pattern1 f) (bare_form f a b [] @ post) g0 cap0 = None" .
  have "re_match (pattern2 f) (bare_form f a b [] @ post) g0 cap0
      = re_match [Star Space, Lit CHR '':'', Star Space,
             Lit dquote, Group_open, Plus (Not_in [dquote]), Group_close, Lit dquote]
          (a @ '':'' @ b @ quoted [] @ post) g0 cap0"
    unfolding pattern2_def bare_form_def by (simp only: append_assoc lits_app)
  also have "\<dots> = None"
    using assms by (simp add: spaces_cls star_lit quoted_def)
  finally show "re_match (pattern2 f) (bare_form f a b [] @ post) g0 cap0 = None" .
qed

lemma empty_wrapped_no_match:
  assumes "spaces a" "spaces b" "spaces c" "spaces d" "spaces e"
  shows "re_match (pattern1 f) (wrapped_form f a b c d e [] g @ post) g0 cap0 = None"
    and "re_match (pattern2 f) (wrapped_form f a b c d e [] g @ post) g0 cap0 = None"
proof -
  have "re_match (pattern1 f) (wrapped_form f a b c d e [] g @ post) g0 cap0
      = re_match ([Star Space, Lit CHR '':'', Star Space, Lit CHR ''{'', Star Space]
          @ map Lit (quoted ''string'')
          @ [Star Space, Lit CHR '':'', Star Space,
             Lit dquote, Group_open, Plus (Not_in [dquote]), Group_close, Lit dquote,
             Star Space, Lit CHR ''}''])
          (a @ '':'' @ b @ ''{'' @ c @ quoted ''string'' @ d @ '':'' @ e @ quoted [] @ g @ ''}''
             @ post) g0 cap0"
    unfolding pattern1_def wrapped_form_def by (simp only: append_assoc lits_app)
  also have "\<dots> = None"
    using assms by (simp add: spaces_cls star_lit quoted_def)
  finally show "re_match (pattern1 f) (wrapped_form f a b c d e [] g @ post) g0 cap0 = None" .
  have "re_match (pattern2 f) (wrapped_form f a b c d e [] g @ post) g0 cap0
      = re_match [Star Space, Lit CHR '':'', Star Space,
             Lit dquote, Group_open, Plus (Not_in [dquote]), Group_close, Lit dquote]
          (a @ '':'' @ b @ ''{'' @ c @ quoted ''string'' @ d @ '':'' @ e @ quoted [] @ g @ ''}''
             @ post) g0 cap0"
    unfolding pattern2_def wrapped_form_def by (simp only: append_assoc lits_app)
  also have "\<dots> = None"
    using assms by (simp add: spaces_cls star_lit quoted_def dquote_neq)
  finally show "re_match (pattern2 f) (wrapped_form f a b c d e [] g @ post) g0 cap0 = None" .
qed

text \<open>
  C10. Let the field stand in the raw text with an empty quoted value, in the bare or in
  the wrapped form, and let no wrapped-form or bare-form occurrence of that field begin
  at any other position. Then the extractor returns the sentinel \<^verbatim>\<open>UNKNOWN\<close>, not the
  empty string.
\<close>

theorem empty_value_sentinel:
  assumes "plain_name f"
    and "spaces a" "spaces b" "spaces c" "spaces d" "spaces e" "spaces g"
    and "decl = bare_form f a b [] \<or> decl = wrapped_form f a b c d e [] g"
    and "raw = pre @ decl @ post"
    and "\<forall>i\<le>length raw. i \<noteq> length pre \<longrightarrow>
           (\<forall>u. \<not> wrapped_at f (drop i raw) u) \<and> (\<forall>u. \<not> bare_at f (drop i raw) u)"
  shows "extract_string_value raw f = ''UNKNOWN''"
proof -
  have here: "re_match (pattern1 f) (decl @ post) [] [] = None
            \<and> re_match (pattern2 f) (decl @ post) [] [] = None"
    using assms(8) empty_bare_no_match [OF assms(2,3)] empty_wrapped_no_match [OF assms(2-6)]
    by auto
  have "re_match (pattern1 f) (drop i raw) [] [] = None
      \<and> re_match (pattern2 f) (drop i raw) [] [] = None" if "i \<le> length raw" for i
  proof (cases "i = length pre")
    case True
    with here show ?thesis by (simp add: assms(9))
  next
    case False
    with assms(10) that show ?thesis by (simp add: not_wrapped_iff not_bare_iff)
  qed
  then have "re_search (pattern1 f) raw = None" "re_search (pattern2 f) raw = None"
    by (simp_all add: re_search_None_iff)
  then show ?thesis by (simp add: extract_string_value_def)
qed

text \<open>
  The texts \<^verbatim>\<open>{"usrname": ""}\<close> and \<^verbatim>\<open>{"usrname": {"string": ""}}\<close>.
\<close>

theorem empty_value_sentinel_witness:
  "extract_string_value (''{'' @ bare_form ''usrname'' '''' '' '' '''' @ ''}'') ''usrname''
     = ''UNKNOWN''
   \<and> extract_string_value
       (''{'' @ wrapped_form ''usrname'' '''' '' '' '''' '''' '' '' '''' '''' @ ''}'') ''usrname''
     = ''UNKNOWN''"
proof -
  have p: "plain_name ''usrname''" by (simp add: plain_name_def)
  have s0: "spaces ''''" and s1: "spaces '' ''" by (simp_all add: spaces_def is_space_def)
  have d1: "bare_form ''usrname'' '''' '' '' '''' = bare_form ''usrname'' '''' '' '' ''''
      \<or> bare_form ''usrname'' '''' '' '' '''' = wrapped_form ''usrname'' '''' '' '' '''' '''' '' '' '''' ''''"
    by simp
  have d2: "wrapped_form ''usrname'' '''' '' '' '''' '''' '' '' '''' '''' = bare_form ''usrname'' '''' '' '' ''''
      \<or> wrapped_form ''usrname'' '''' '' '' '''' '''' '' '' '''' ''''
        = wrapped_form ''usrname'' '''' '' '' '''' '''' '' '' '''' ''''"
    by simp
  have o1: "\<forall>i\<le>length (''{'' @ bare_form ''usrname'' '''' '' '' '''' @ ''}'').
      i \<noteq> length ''{'' \<longrightarrow>
        (\<forall>u. \<not> wrapped_at ''usrname'' (drop i (''{'' @ bare_form ''usrname'' '''' '' '' '''' @ ''}'')) u)
      \<and> (\<forall>u. \<not> bare_at ''usrname'' (drop i (''{'' @ bare_form ''usrname'' '''' '' '' '''' @ ''}'')) u)"
    unfolding not_wrapped_iff not_bare_iff all_le_upt
    by (simp add: pattern1_def pattern2_def bare_form_def wrapped_form_def quoted_def dquote_def
        is_space_def upt_rec)
  have o2: "\<forall>i\<le>length (''{'' @ wrapped_form ''usrname'' '''' '' '' '''' '''' '' '' '''' '''' @ ''}'').
      i \<noteq> length ''{'' \<longrightarrow>
        (\<forall>u. \<not> wrapped_at ''usrname''
               (drop i (''{'' @ wrapped_form ''usrname'' '''' '' '' '''' '''' '' '' '''' '''' @ ''}'')) u)
      \<and> (\<forall>u. \<not> bare_at ''usrname''
               (drop i (''{'' @ wrapped_form ''usrname'' '''' '' '' '''' '''' '' '' '''' '''' @ ''}'')) u)"
    unfolding not_wrapped_iff not_bare_iff all_le_upt
    by (simp add: pattern1_def pattern2_def bare_form_def wrapped_form_def quoted_def dquote_def
        is_space_def upt_rec)
  from empty_value_sentinel [OF p s0 s1 s0 s0 s1 s0 d1 refl o1]
    empty_value_sentinel [OF p s0 s1 s0 s0 s1 s0 d2 refl o2]
  show ?thesis by blast
qed

section \<open>The history buffer\<close>

lemma keep_last_append:
  assumes "length xs \<le> 10"
  shows "drop (length (drop (Suc (length xs) - 10) (xs @ [r]) @ rs) - 10)
              (drop (Suc (length xs) - 10) (xs @ [r]) @ rs)
         = drop (length (xs @ r # rs) - 10) (xs @ r # rs)"
proof (cases "length xs \<le> 9")
  case True
  then show ?thesis by simp
next
  case False
  with assms have l: "length xs = 10" by simp
  then obtain x ys where xs: "xs = x # ys" by (cases xs) auto
  with l have "length ys = 9" by simp
  then show ?thesis by (simp add: xs)
qed

lemma fold_store_transaction:
  "length (transaction_storage st) \<le> 10 \<Longrightarrow>
   fold store_transaction rs st =
     \<lparr>transaction_counter = transaction_counter st + int (length rs),
      transaction_storage =
        drop (length (transaction_storage st @ rs) - 10) (transaction_storage st @ rs)\<rparr>"
proof (induction rs arbitrary: st)
  case Nil
  then show ?case by simp
next
  case (Cons r rs)
  let ?st = "store_transaction r st"
  have sto: "transaction_storage ?st =
               drop (Suc (length (transaction_storage st)) - 10) (transaction_storage st @ [r])"
    by (simp add: store_transaction_def Let_def)
  have len: "length (transaction_storage ?st) \<le> 10"
    using Cons.prems by (simp add: sto)
  have cnt: "transaction_counter ?st = transaction_counter st + 1"
    by (simp add: store_transaction_def Let_def)
  have "fold store_transaction (r # rs) st = fold store_transaction rs ?st" by simp
  also have "\<dots> = \<lparr>transaction_counter = transaction_counter ?st + int (length rs),
      transaction_storage =
        drop (length (transaction_storage ?st @ rs) - 10) (transaction_storage ?st @ rs)\<rparr>"
    by (rule Cons.IH [OF len])
  also have "\<dots> = \<lparr>transaction_counter = transaction_counter st + int (length (r # rs)),
      transaction_storage =
        drop (length (transaction_storage st @ r # rs) - 10) (transaction_storage st @ r # rs)\<rparr>"
    unfolding sto cnt keep_last_append [OF Cons.prems] by simp
  finally show ?case .
qed

text \<open>
  C7. From the empty store, storing fifteen records one after the other leaves the counter
  at 15 and the buffer holding the last ten of them, in the order they arrived: the five
  oldest are gone.
\<close>

theorem history_buffer_eviction:
  "length rs = 15 \<Longrightarrow>
   fold store_transaction rs initial_store =
     \<lparr>transaction_counter = 15, transaction_storage = drop 5 rs\<rparr>
   \<and> length (transaction_storage (fold store_transaction rs initial_store)) = 10"
  using fold_store_transaction [of initial_store rs]
  by (simp add: initial_store_def)

text \<open>The fifteen records \<open>t01\<close> to \<open>t15\<close>: \<open>t06\<close> to \<open>t15\<close> are left.\<close>

theorem history_buffer_eviction_witness:
  "length (map TransactionData_default
      [''t01'', ''t02'', ''t03'', ''t04'', ''t05'', ''t06'', ''t07'', ''t08'', ''t09'', ''t10'',
       ''t11'', ''t12'', ''t13'', ''t14'', ''t15'']) = 15
   \<and> fold store_transaction (map TransactionData_default
      [''t01'', ''t02'', ''t03'', ''t04'', ''t05'', ''t06'', ''t07'', ''t08'', ''t09'', ''t10'',
       ''t11'', ''t12'', ''t13'', ''t14'', ''t15'']) initial_store =
     \<lparr>transaction_counter = 15,
      transaction_storage = map TransactionData_default
        [''t06'', ''t07'', ''t08'', ''t09'', ''t10'', ''t11'', ''t12'', ''t13'', ''t14'', ''t15'']\<rparr>"
  using history_buffer_eviction [of "map TransactionData_default
      [''t01'', ''t02'', ''t03'', ''t04'', ''t05'', ''t06'', ''t07'', ''t08'', ''t09'', ''t10'',
       ''t11'', ''t12'', ''t13'', ''t14'', ''t15'']"]
  by simp

lemma store_transaction_nonempty:
  "0 \<le> transaction_counter st \<Longrightarrow>
   0 < transaction_counter (store_transaction t st) \<and> transaction_storage (store_transaction t st) \<noteq> []"
  by (simp add: store_transaction_def Let_def)

lemma handle_zero_iff_empty:
  assumes "0 \<le> transaction_counter st"
    and "(transaction_counter st = 0) = (transaction_storage st = [])"
  shows "0 \<le> transaction_counter (handle st r)
    \<and> ((transaction_counter (handle st r) = 0) = (transaction_storage (handle st r) = []))"
proof (cases r)
  case (Pair now q)
  show ?thesis
  proof (cases q)
    case (Post_transaction body)
    show ?thesis
    proof (cases body)
      case (Inl e)
      with Pair Post_transaction assms show ?thesis by (simp add: receive_transaction_def)
    next
      case (Inr raw)
      have "handle st r = store_transaction (parse_avro_string now raw) st"
        using Pair Post_transaction Inr by (simp add: receive_transaction_def Let_def)
      with store_transaction_nonempty [OF assms(1), of "parse_avro_string now raw"]
      show ?thesis by simp
    qed
  next
    case Get_transactions
    with Pair assms show ?thesis by (simp add: get_transactions_def Let_def)
  next
    case Post_reset
    with Pair show ?thesis by (simp add: reset_counters_def)
  qed
qed

lemma foldl_handle_zero_iff_empty:
  assumes "0 \<le> transaction_counter st"
    and "(transaction_counter st = 0) = (transaction_storage st = [])"
  shows "0 \<le> transaction_counter (foldl handle st rs)
    \<and> ((transaction_counter (foldl handle st rs) = 0) = (transaction_storage (foldl handle st rs) = []))"
  using assms
proof (induction rs arbitrary: st)
  case Nil
  then show ?case by simp
next
  case (Cons r rs)
  from handle_zero_iff_empty [OF Cons.prems, of r]
  have "0 \<le> transaction_counter (handle st r)"
    and "(transaction_counter (handle st r) = 0) = (transaction_storage (handle st r) = [])"
    by simp_all
  from Cons.IH [OF this] show ?case by simp
qed

text \<open>
  C8. From any store, the reset leaves the counter at 0 and the buffer empty, both in
  the one step that the handler is; a run that ends with a reset ends in that store; and
  in every store a run of requests can reach, the counter is 0 exactly when the buffer
  is empty, so neither is seen cleared without the other.
\<close>

theorem reset_atomicity:
  "snd (reset_counters now st) = \<lparr>transaction_counter = 0, transaction_storage = []\<rparr>
   \<and> serve (requests @ [(now, Post_reset)]) = \<lparr>transaction_counter = 0, transaction_storage = []\<rparr>
   \<and> (transaction_counter (serve requests) = 0) = (transaction_storage (serve requests) = [])"
proof -
  have "(transaction_counter (serve requests) = 0) = (transaction_storage (serve requests) = [])"
    using foldl_handle_zero_iff_empty [of initial_store requests]
    by (simp add: serve_def initial_store_def)
  then show ?thesis by (simp add: reset_counters_def serve_def)
qed


section \<open>The fallback record\<close>

text \<open>
  C6. The payload of the fallback record is the first 200 characters of the raw text,
  followed by three dots exactly when the raw text is longer than 200; this is the
  payload whenever the parser's \<^verbatim>\<open>try\<close> block raises. A raw text of 300 characters
  gives a payload of 203, one of 200 characters is the payload itself.
\<close>

theorem fallback_payload_truncation:
  "data (create_fallback_transaction now raw_data error_msg) =
     Some (take 200 raw_data @ (if 200 < length raw_data then ''...'' else ''''))
   \<and> (try_parse step now raw_data = Inl e \<longrightarrow>
        data (parse_avro_string_with step now raw_data) =
          Some (take 200 raw_data @ (if 200 < length raw_data then ''...'' else '''')))
   \<and> (length raw_data = 300 \<longrightarrow>
        (\<exists>p. data (create_fallback_transaction now raw_data error_msg) = Some p \<and> length p = 203))
   \<and> (length raw_data = 200 \<longrightarrow>
        data (create_fallback_transaction now raw_data error_msg) = Some raw_data)"
  by (simp add: create_fallback_transaction_def parse_avro_string_with_def)

text \<open>
  A raw text of 300 characters whose parse raises at the field \<open>data\<close>, and one of 200
  characters.
\<close>

theorem fallback_payload_truncation_witness:
  "length (replicate 300 CHR ''x'') = 300
   \<and> try_parse (raising_step ''data'') ''2024-05-01T10:00:00'' (replicate 300 CHR ''x'')
       = Inl (Exception ''cannot read data'')
   \<and> data (parse_avro_string_with (raising_step ''data'') ''2024-05-01T10:00:00''
         (replicate 300 CHR ''x''))
       = Some (replicate 200 CHR ''x'' @ ''...'')
   \<and> (\<exists>p. data (create_fallback_transaction ''2024-05-01T10:00:00'' (replicate 300 CHR ''x'')
               ''cannot read data'') = Some p \<and> length p = 203)
   \<and> length (replicate 200 CHR ''y'') = 200
   \<and> data (create_fallback_transaction ''2024-05-01T10:00:00'' (replicate 200 CHR ''y'')
         ''cannot read data'') = Some (replicate 200 CHR ''y'')"
proof -
  have t: "try_parse (raising_step ''data'') ''2024-05-01T10:00:00'' (replicate 300 CHR ''x'')
       = Inl (Exception ''cannot read data'')"
    by (simp add: try_parse_def bind_exn_def raising_step_def extract_step_def)
  show ?thesis
    using t
      fallback_payload_truncation [of "''2024-05-01T10:00:00''" "replicate 300 CHR ''x''"
        "''cannot read data''" "raising_step ''data''" "Exception ''cannot read data''"]
      fallback_payload_truncation [of "''2024-05-01T10:00:00''" "replicate 200 CHR ''y''"
        "''cannot read data''" "raising_step ''data''" "Exception ''cannot read data''"]
    by simp
qed

section \<open>The parser returns a record\<close>

text \<open>
  C1. For every raw text the parser returns a record with all five fields set, whatever
  the extraction step does: when a step of the \<^verbatim>\<open>try\<close> block raises, the result is the
  fallback record made from the raw text and the exception's message. With the source's
  extraction step, which is a total function (the search ends on every text), the block
  does not raise and the record holds the five extracted values.
\<close>

theorem parsing_total:
  "fully_populated (parse_avro_string_with step now raw_data)
   \<and> (try_parse step now raw_data = Inl e \<longrightarrow>
        parse_avro_string_with step now raw_data =
          create_fallback_transaction now raw_data (str e))
   \<and> try_parse extract_step now raw_data =
       Inr \<lparr>authorizer_usrnbr = Some (extract_string_value raw_data ''authorizer_usrnbr''),
            creat_usrnbr = Some (extract_string_value raw_data ''creat_usrnbr''),
            creat_time = Some (extract_string_value raw_data ''creat_time''),
            data = Some (extract_string_value raw_data ''data''),
            usrname = Some (extract_string_value raw_data ''usrname''),
            received_at = now\<rparr>
   \<and> parse_avro_string now raw_data =
       \<lparr>authorizer_usrnbr = Some (extract_string_value raw_data ''authorizer_usrnbr''),
        creat_usrnbr = Some (extract_string_value raw_data ''creat_usrnbr''),
        creat_time = Some (extract_string_value raw_data ''creat_time''),
        data = Some (extract_string_value raw_data ''data''),
        usrname = Some (extract_string_value raw_data ''usrname''),
        received_at = now\<rparr>
   \<and> fully_populated (parse_avro_string now raw_data)"
proof -
  have body: "try_parse extract_step now raw_data =
       Inr \<lparr>authorizer_usrnbr = Some (extract_string_value raw_data ''authorizer_usrnbr''),
            creat_usrnbr = Some (extract_string_value raw_data ''creat_usrnbr''),
            creat_time = Some (extract_string_value raw_data ''creat_time''),
            data = Some (extract_string_value raw_data ''data''),
            usrname = Some (extract_string_value raw_data ''usrname''),
            received_at = now\<rparr>"
    by (simp add: try_parse_def bind_exn_def extract_step_def)
  have pop: "fully_populated (parse_avro_string_with ex now raw_data)" for ex
  proof (cases "try_parse ex now raw_data")
    case (Inl e)
    then show ?thesis
      by (simp add: parse_avro_string_with_def create_fallback_transaction_def
          fully_populated_def)
  next
    case (Inr t)
    then have "fully_populated t"
      by (auto simp: try_parse_def bind_exn_def fully_populated_def split: sum.splits)
    with Inr show ?thesis by (simp add: parse_avro_string_with_def)
  qed
  have fb: "try_parse step now raw_data = Inl e \<longrightarrow>
        parse_avro_string_with step now raw_data =
          create_fallback_transaction now raw_data (str e)"
    by (simp add: parse_avro_string_with_def)
  have p: "parse_avro_string now raw_data =
       \<lparr>authorizer_usrnbr = Some (extract_string_value raw_data ''authorizer_usrnbr''),
        creat_usrnbr = Some (extract_string_value raw_data ''creat_usrnbr''),
        creat_time = Some (extract_string_value raw_data ''creat_time''),
        data = Some (extract_string_value raw_data ''data''),
        usrname = Some (extract_string_value raw_data ''usrname''),
        received_at = now\<rparr>"
    by (simp add: parse_avro_string_def parse_avro_string_with_def body)
  have "fully_populated (parse_avro_string now raw_data)"
    using pop [of extract_step] by (simp add: parse_avro_string_def)
  with pop [of step] fb body p show ?thesis by blast
qed

text \<open>The text \<^verbatim>\<open>{]\<close> and a step that raises at \<open>creat_time\<close>.\<close>

theorem parsing_total_witness:
  "try_parse (raising_step ''creat_time'') ''2024-05-01T10:00:00'' ''{]'' =
     Inl (Exception ''cannot read creat_time'')
   \<and> parse_avro_string_with (raising_step ''creat_time'') ''2024-05-01T10:00:00'' ''{]'' =
     \<lparr>authorizer_usrnbr = Some ''PARSE_ERROR'',
      creat_usrnbr = Some ''PARSE_ERROR'',
      creat_time = Some ''2024-05-01T10:00:00'',
      data = Some ''{]'',
      usrname = Some ''ERROR: cannot read creat_time'',
      received_at = ''2024-05-01T10:00:00''\<rparr>"
proof -
  have t: "try_parse (raising_step ''creat_time'') ''2024-05-01T10:00:00'' ''{]'' =
     Inl (Exception ''cannot read creat_time'')"
    by (simp add: try_parse_def bind_exn_def raising_step_def extract_step_def)
  show ?thesis
    using t parsing_total [of "raising_step ''creat_time''" "''2024-05-01T10:00:00''" "''{]''"
        "Exception ''cannot read creat_time''"]
    by (simp add: create_fallback_transaction_def isoformat_def)
qed

text \<open>
  C2, as stated, fails: on \<^verbatim>\<open>{}\<close> no pattern matches, and the parser passes the
  extractor's sentinel for every field, so \<open>creat_time\<close> and \<open>data\<close> are \<^verbatim>\<open>UNKNOWN\<close>
  and not the empty string that the class declares as their default.
\<close>

theorem missing_field_defaults_counterexample:
  "re_search (pattern1 ''creat_time'') ''{}'' = None
   \<and> re_search (pattern2 ''creat_time'') ''{}'' = None
   \<and> re_search (pattern1 ''data'') ''{}'' = None
   \<and> re_search (pattern2 ''data'') ''{}'' = None
   \<and> creat_time (parse_avro_string ''2024-05-01T10:00:00'' ''{}'') = Some ''UNKNOWN''
   \<and> data (parse_avro_string ''2024-05-01T10:00:00'' ''{}'') = Some ''UNKNOWN''
   \<and> creat_time (parse_avro_string ''2024-05-01T10:00:00'' ''{}'') \<noteq> Some ''''
   \<and> data (parse_avro_string ''2024-05-01T10:00:00'' ''{}'') \<noteq> Some ''''"
  by (simp add: parse_avro_string_def parse_avro_string_with_def try_parse_def bind_exn_def
      extract_step_def extract_string_value_def pattern1_def pattern2_def quoted_def dquote_def)

text \<open>
  C2, amended. When neither pattern of any of the five fields matches in the raw text,
  all five fields of the parsed record are the sentinel \<^verbatim>\<open>UNKNOWN\<close>.
\<close>

theorem missing_field_sentinel:
  assumes "\<forall>f \<in> set field_names.
             re_search (pattern1 f) raw_data = None \<and> re_search (pattern2 f) raw_data = None"
  shows "parse_avro_string now raw_data =
       \<lparr>authorizer_usrnbr = Some ''UNKNOWN'',
        creat_usrnbr = Some ''UNKNOWN'',
        creat_time = Some ''UNKNOWN'',
        data = Some ''UNKNOWN'',
        usrname = Some ''UNKNOWN'',
        received_at = now\<rparr>"
  using assms
  by (simp add: parse_avro_string_def parse_avro_string_with_def try_parse_def bind_exn_def
      extract_step_def extract_string_value_def field_names_def)

theorem missing_field_sentinel_witness:
  "list_all (\<lambda>f. re_search (pattern1 f) ''{}'' = None \<and> re_search (pattern2 f) ''{}'' = None)
     field_names
   \<and> parse_avro_string ''2024-05-01T10:00:00'' ''{}'' =
       \<lparr>authorizer_usrnbr = Some ''UNKNOWN'',
        creat_usrnbr = Some ''UNKNOWN'',
        creat_time = Some ''UNKNOWN'',
        data = Some ''UNKNOWN'',
        usrname = Some ''UNKNOWN'',
        received_at = ''2024-05-01T10:00:00''\<rparr>"
proof -
  have h: "\<forall>f \<in> set field_names.
      re_search (pattern1 f) ''{}'' = None \<and> re_search (pattern2 f) ''{}'' = None"
    by (simp add: field_names_def pattern1_def pattern2_def quoted_def dquote_def)
  from h missing_field_sentinel [OF h, of "''2024-05-01T10:00:00''"] show ?thesis
    by (simp add: list_all_iff)
qed

end
